theory Spec2Isabelle
  imports Main "HOL-Library.Multiset" "HOL-Library.Char_ord" "HOL-Library.List_Lexorder"
begin

section \<open>The root expression of the design (expr/root.go)\<close>

text \<open>
  The file \<^verbatim>\<open>root.go\<close> declares \<^verbatim>\<open>RootExpr\<close>, the container of everything the DSL
  builds, and the functions that read it: \<^verbatim>\<open>NameMap\<close>, \<^verbatim>\<open>WalkSets\<close>, \<^verbatim>\<open>UserType\<close>,
  \<^verbatim>\<open>GeneratedResultType\<close>, \<^verbatim>\<open>Service\<close>, \<^verbatim>\<open>Error\<close>, \<^verbatim>\<open>HTTPSchemes\<close>,
  \<^verbatim>\<open>Validate\<close> and \<^verbatim>\<open>Dup\<close>.  Go pointers to nodes are modelled by the nodes' values;
  a function that writes through its receiver returns the updated value.
\<close>

subsection \<open>Run-time failures\<close>

text \<open>
  A Go panic is a value of the model.  The panics that the statements of \<^verbatim>\<open>root.go\<close> can
  raise are a failed type assertion \<^verbatim>\<open>x.(*ResultTypeExpr)\<close>, the dereference of a nil
  pointer and an index out of range.
\<close>

datatype panic = TypeAssertion | NilDereference | IndexOutOfRange

subsection \<open>Nodes\<close>

text \<open>
  Modelled from the spec: the node types other than \<^verbatim>\<open>RootExpr\<close>, \<^verbatim>\<open>MetaExpr\<close> and
  \<^verbatim>\<open>TypeMap\<close> are declared in other files of package \<^verbatim>\<open>expr\<close>.  Each has the fields
  and methods that \<^verbatim>\<open>root.go\<close> reads, which are those of the spec's data model (a service
  has a name and methods, a transport service a name, a parent name, endpoints and, for
  HTTP, file servers).  Leaf nodes, of which \<^verbatim>\<open>root.go\<close> only passes pointers on, carry a
  label that tells them apart.  The elements of the collections are nodes: a nil element is
  not modelled.
\<close>

datatype AttributeExpr = AttributeExpr string
datatype MethodExpr = MethodExpr string
datatype HTTPEndpointExpr = HTTPEndpointExpr string
datatype HTTPFileServerExpr = HTTPFileServerExpr string
datatype GRPCEndpointExpr = GRPCEndpointExpr string
datatype SchemeExpr = SchemeExpr string

record UserTypeExpr =
  TypeName :: string
  UserAttribute :: AttributeExpr

text \<open>A result type is a user type with an identifier.\<close>

record ResultTypeExpr =
  ResultTypeName :: string
  ResultAttribute :: AttributeExpr
  Identifier :: string

text \<open>
  \<^verbatim>\<open>UserType\<close> is a Go interface; its values in the registry are pointers to one of the two
  node types above.  \<^verbatim>\<open>Name()\<close> and \<^verbatim>\<open>Attribute()\<close> are its methods.
\<close>

datatype UserType = UserTypeV UserTypeExpr | ResultTypeV ResultTypeExpr

fun Name :: "UserType \<Rightarrow> string" where
  "Name (UserTypeV t) = TypeName t"
| "Name (ResultTypeV t) = ResultTypeName t"

fun Attribute :: "UserType \<Rightarrow> AttributeExpr" where
  "Attribute (UserTypeV t) = UserAttribute t"
| "Attribute (ResultTypeV t) = ResultAttribute t"

record ServiceExpr =
  ServiceName :: string
  Methods :: "MethodExpr list"

record ErrorExpr =
  ErrorName :: string

text \<open>
  A transport service: \<open>HTTPName\<close> is the result of the method \<^verbatim>\<open>Name()\<close> of
  \<^verbatim>\<open>HTTPServiceExpr\<close>, \<open>GRPCName\<close> that of \<^verbatim>\<open>GRPCServiceExpr\<close>.
\<close>

record HTTPServiceExpr =
  HTTPName :: string
  HTTPParentName :: string
  HTTPEndpoints :: "HTTPEndpointExpr list"
  FileServers :: "HTTPFileServerExpr list"

record GRPCServiceExpr =
  GRPCName :: string
  GRPCParentName :: string
  GRPCEndpoints :: "GRPCEndpointExpr list"

record ServerExpr =
  URL :: string

text \<open>
  \<^verbatim>\<open>r.API.HTTP.Services\<close> and \<^verbatim>\<open>r.API.GRPC.Services\<close>: the API node holds the two
  transport roots, each with its sequence of services.  \<^verbatim>\<open>NewAPIExpr\<close> allocates both,
  so they are part of the API node here.
\<close>

record HTTPExpr =
  HTTPServices :: "HTTPServiceExpr list"

record GRPCExpr =
  GRPCServices :: "GRPCServiceExpr list"

record APIExpr =
  APIName :: string
  HTTP :: HTTPExpr
  GRPC :: GRPCExpr
  Servers :: "ServerExpr list"

text \<open>\<^verbatim>\<open>TypeMap\<close>: the external type is an \<^verbatim>\<open>interface{}\<close>, kept as its description.\<close>

record TypeMap =
  User :: UserType
  External :: string

type_synonym MetaExpr = "string \<rightharpoonup> string list"

text \<open>
  \<^verbatim>\<open>RootExpr\<close>, field by field.  \<^verbatim>\<open>API\<close> is a pointer that may be nil;
  \<^verbatim>\<open>GeneratedTypes\<close> points to a slice of \<^verbatim>\<open>UserType\<close>.
\<close>

record RootExpr =
  API :: "APIExpr option"
  Services :: "ServiceExpr list"
  Errors :: "ErrorExpr list"
  Types :: "UserType list"
  ResultTypes :: "UserType list"
  GeneratedTypes :: "UserType list"
  Conversions :: "TypeMap list"
  Creations :: "TypeMap list"
  Schemes :: "SchemeExpr list"
  Meta :: MetaExpr

text \<open>
  \<^verbatim>\<open>eval.Expression\<close> is the interface of everything the engine evaluates; an
  \<^verbatim>\<open>eval.ExpressionSet\<close> is a slice of expressions.  The constructors are the dynamic
  types of the values that \<^verbatim>\<open>root.go\<close> stores in such a slice or hands to the validator.
\<close>

datatype Expression =
    RootE RootExpr
  | APIE APIExpr
  | AttributeE AttributeExpr
  | ResultTypeE ResultTypeExpr
  | ServiceE ServiceExpr
  | MethodE MethodExpr
  | HTTPServiceE HTTPServiceExpr
  | HTTPEndpointE HTTPEndpointExpr
  | HTTPFileServerE HTTPFileServerExpr
  | GRPCServiceE GRPCServiceExpr
  | GRPCEndpointE GRPCEndpointExpr

type_synonym ExpressionSet = "Expression list"

subsection \<open>NameMap\<close>

text \<open>
  \<^verbatim>\<open>strings.Split(s, ":")\<close> of the Go library: the substrings of \<open>s\<close> between the
  separators.  The library cuts at the first separator, keeps the part before it and goes
  on with the part after it; what is left when no separator remains is the last element.
\<close>

function Split :: "string \<Rightarrow> char \<Rightarrow> string list" where
  "Split s sep =
     (if sep \<in> set s
      then takeWhile (\<lambda>c. c \<noteq> sep) s # Split (tl (dropWhile (\<lambda>c. c \<noteq> sep) s)) sep
      else [s])"
  by pat_completeness auto
termination
proof (relation "measure (\<lambda>(s, sep). length s)")
  show "wf (measure (\<lambda>(s, sep). length s))" by simp
next
  fix s :: string and sep :: char
  assume "sep \<in> set s"
  then have "dropWhile (\<lambda>c. c \<noteq> sep) s \<noteq> []" by auto
  then have "length (tl (dropWhile (\<lambda>c. c \<noteq> sep) s)) < length (dropWhile (\<lambda>c. c \<noteq> sep) s)"
    by (cases "dropWhile (\<lambda>c. c \<noteq> sep) s") auto
  also have "\<dots> \<le> length s" by (rule length_dropWhile_le)
  finally show "((tl (dropWhile (\<lambda>c. c \<noteq> sep) s), sep), (s, sep)) \<in> measure (\<lambda>(s, sep). length s)"
    by simp
qed

declare Split.simps [simp del]

text \<open>
  \<^verbatim>\<open>elems[0]\<close> and \<^verbatim>\<open>elems[1]\<close> are indexed reads: out of range they panic, and the
  model says so.
\<close>

definition NameMap :: "string \<Rightarrow> panic + (string \<times> string)" where
  "NameMap encoded =
     (let elems = Split encoded (CHR '':'')
      in if length elems \<le> 0 then Inl IndexOutOfRange
         else let attName = elems ! 0;
                  name = (if length elems > 1 then elems ! 1 else attName)
              in Inr (attName, name))"

subsection \<open>Lookups\<close>

text \<open>
  The loop \<^verbatim>\<open>for _, t := range ts { if t.Name() == name { return t } }\<close>: the first
  element with the name, if the loop finds one.
\<close>

fun first_named :: "string \<Rightarrow> UserType list \<Rightarrow> UserType option" where
  "first_named name [] = None"
| "first_named name (t # ts) = (if Name t = name then Some t else first_named name ts)"

text \<open>\<^verbatim>\<open>UserType\<close>: the loop over \<^verbatim>\<open>r.Types\<close>, then the loop over \<^verbatim>\<open>r.ResultTypes\<close>, then nil.\<close>

definition UserType :: "RootExpr \<Rightarrow> string \<Rightarrow> UserType option" where
  "UserType r name =
     (case first_named name (Types r) of
        Some t \<Rightarrow> Some t
      | None \<Rightarrow>
          (case first_named name (ResultTypes r) of
             Some t \<Rightarrow> Some t
           | None \<Rightarrow> None))"

subsection \<open>Validate\<close>

text \<open>
  Modelled from the spec: \<^verbatim>\<open>eval.ValidationErrors\<close> and its method \<^verbatim>\<open>Add\<close> are declared
  in package \<^verbatim>\<open>eval\<close>.  The spec describes a composite error value that holds zero or more
  failures, each naming the offending node and a human-readable message; \<^verbatim>\<open>Add\<close> records
  one more failure.
\<close>

record ValidationErrors =
  VErrors :: "string list"
  VExpressions :: "Expression list"

definition no_errors :: ValidationErrors where
  "no_errors = \<lparr>VErrors = [], VExpressions = []\<rparr>"

definition Add :: "ValidationErrors \<Rightarrow> Expression \<Rightarrow> string \<Rightarrow> ValidationErrors" where
  "Add verr def msg = \<lparr>VErrors = VErrors verr @ [msg], VExpressions = VExpressions verr @ [def]\<rparr>"

text \<open>
  \<^verbatim>\<open>Validate\<close> declares an empty \<^verbatim>\<open>verr\<close>, adds one failure when \<^verbatim>\<open>r.API\<close> is nil and
  returns \<^verbatim>\<open>&verr\<close>: the returned pointer is never nil, the composite may be empty.
\<close>

definition Validate :: "RootExpr \<Rightarrow> ValidationErrors" where
  "Validate r =
     (let verr = no_errors;
          verr = (if API r = None then Add verr (RootE r) ''Missing API declaration'' else verr)
      in verr)"

subsection \<open>HTTPSchemes\<close>

text \<open>
  \<^verbatim>\<open>url.Parse\<close> belongs to the Go library (\<^verbatim>\<open>net/url\<close>) and is a parameter of the
  model.  It returns a pointer to a \<^verbatim>\<open>URL\<close> and an error, and exactly one of them is
  nil: \<open>Inl err\<close> stands for \<^verbatim>\<open>(nil, err)\<close> and \<open>Inr u\<close> for \<^verbatim>\<open>(u, nil)\<close>.
\<close>

record url_URL =
  Scheme :: string

type_synonym url_Parse = "string \<Rightarrow> string + url_URL"

text \<open>
  The loop over \<^verbatim>\<open>r.API.Servers\<close>.  Its body is guarded by \<^verbatim>\<open>err != nil\<close>, where
  \<^verbatim>\<open>u\<close> is nil, so that reading \<^verbatim>\<open>u.Scheme\<close> panics before anything is stored in
  \<^verbatim>\<open>schemes\<close>; when \<^verbatim>\<open>err\<close> is nil the body is skipped.
\<close>

fun collect_schemes :: "url_Parse \<Rightarrow> ServerExpr list \<Rightarrow> string set \<Rightarrow> panic + string set" where
  "collect_schemes Parse [] schemes = Inr schemes"
| "collect_schemes Parse (s # ss) schemes =
     (case Parse (URL s) of
        Inl err \<Rightarrow> Inl NilDereference
      | Inr u \<Rightarrow> collect_schemes Parse ss schemes)"

text \<open>
  \<^verbatim>\<open>HTTPSchemes\<close> reads \<^verbatim>\<open>r.API.Servers\<close> without a check of \<^verbatim>\<open>r.API\<close>.  The keys of
  the map \<^verbatim>\<open>schemes\<close> are a set; \<^verbatim>\<open>sort.Strings\<close> orders them bytewise.
\<close>

definition HTTPSchemes :: "url_Parse \<Rightarrow> RootExpr \<Rightarrow> panic + string list" where
  "HTTPSchemes Parse r =
     (case API r of
        None \<Rightarrow> Inl NilDereference
      | Some api \<Rightarrow>
          (case collect_schemes Parse (Servers api) {} of
             Inl p \<Rightarrow> Inl p
           | Inr schemes \<Rightarrow>
               if schemes = {} then Inr [] else Inr (sorted_list_of_set schemes)))"

subsection \<open>sort.SliceStable\<close>

text \<open>
  \<^verbatim>\<open>sort.SliceStable(x, less)\<close> belongs to the Go library.  \<^verbatim>\<open>WalkSets\<close> calls it with a
  \<^verbatim>\<open>less\<close> that is not an ordering, so that what it does is not determined by "the slice
  is sorted": the library's algorithm is written out, function by function
  (\<^verbatim>\<open>stable_func\<close>, \<^verbatim>\<open>insertionSort_func\<close>, \<^verbatim>\<open>symMerge_func\<close>, \<^verbatim>\<open>rotate_func\<close>,
  \<^verbatim>\<open>swapRange_func\<close>, the versions of the sort functions for a slice).  The slice is a
  list, passed on from step to step.  \<^verbatim>\<open>less\<close> (\<open>lessf\<close> here) takes two indices and
  reads the slice in its present state; \<^verbatim>\<open>swap\<close> exchanges two elements.  Indices are
  natural numbers: the library calls these functions with \<open>0 \<le> a \<le> m \<le> b \<le> n\<close> only,
  where \<open>n\<close> is the length of the slice, so that no index is negative or out of range.
\<close>

type_synonym 'a less_func = "'a list \<Rightarrow> nat \<Rightarrow> nat \<Rightarrow> bool"

definition swap :: "'a list \<Rightarrow> nat \<Rightarrow> nat \<Rightarrow> 'a list" where
  "swap data i j = data[i := data ! j, j := data ! i]"

text \<open>\<^verbatim>\<open>for j := i; j > a && less(j, j-1); j-- { swap(j, j-1) }\<close>\<close>

function insert_down :: "'a less_func \<Rightarrow> 'a list \<Rightarrow> nat \<Rightarrow> nat \<Rightarrow> 'a list" where
  "insert_down lessf data a j =
     (if j > a \<and> lessf data j (j - 1) then insert_down lessf (swap data j (j - 1)) a (j - 1)
      else data)"
  by pat_completeness auto
termination
  by (relation "measure (\<lambda>(lessf, data, a, j). j)") auto

declare insert_down.simps [simp del]

text \<open>\<^verbatim>\<open>insertionSort_func(data, a, b)\<close>: \<^verbatim>\<open>for i := a + 1; i < b; i++\<close> around the loop above.\<close>

definition insertionSort_func :: "'a less_func \<Rightarrow> 'a list \<Rightarrow> nat \<Rightarrow> nat \<Rightarrow> 'a list" where
  "insertionSort_func lessf data a b =
     fold (\<lambda>i data. insert_down lessf data a i) [a + 1 ..< b] data"

text \<open>\<^verbatim>\<open>swapRange_func(data, a, b, n)\<close>: \<^verbatim>\<open>for i := 0; i < n; i++ { swap(a+i, b+i) }\<close>\<close>

definition swapRange_func :: "'a list \<Rightarrow> nat \<Rightarrow> nat \<Rightarrow> nat \<Rightarrow> 'a list" where
  "swapRange_func data a b n = fold (\<lambda>i data. swap data (a + i) (b + i)) [0 ..< n] data"

text \<open>
  The loop of \<^verbatim>\<open>rotate_func\<close>, \<^verbatim>\<open>for i != j\<close>.  \<^verbatim>\<open>symMerge_func\<close> calls
  \<^verbatim>\<open>rotate_func(start, m, end)\<close> under \<^verbatim>\<open>start < m && m < end\<close>, so the loop starts with
  \<open>0 < i\<close> and \<open>0 < j\<close>, and it keeps both positive.  The condition of the loop says so in the model, which makes the
  recursion total; \<open>rotate_loop_positive\<close> below is the loop as the library has it.
\<close>

function rotate_loop :: "'a list \<Rightarrow> nat \<Rightarrow> nat \<Rightarrow> nat \<Rightarrow> 'a list \<times> nat" where
  "rotate_loop data m i j =
     (if i \<noteq> j \<and> 0 < i \<and> 0 < j
      then if i > j then rotate_loop (swapRange_func data (m - i) m j) m (i - j) j
           else rotate_loop (swapRange_func data (m - i) (m + j - i) i) m i (j - i)
      else (data, i))"
  by pat_completeness auto
termination
  by (relation "measure (\<lambda>(data, m, i, j). i + j)") auto

declare rotate_loop.simps [simp del]

definition rotate_func :: "'a list \<Rightarrow> nat \<Rightarrow> nat \<Rightarrow> nat \<Rightarrow> 'a list" where
  "rotate_func data a m b =
     (let i = m - a;
          j = b - m;
          (data, i) = rotate_loop data m i j
      in swapRange_func data (m - i) m i)"

text \<open>
  The three binary searches of \<^verbatim>\<open>symMerge_func\<close>, each a loop \<^verbatim>\<open>for i < j\<close> that halves the
  interval: with \<^verbatim>\<open>less(h, a)\<close>, with \<^verbatim>\<open>!less(m, h)\<close> and with \<^verbatim>\<open>!less(p-c, c)\<close>.
\<close>

function search_after :: "'a less_func \<Rightarrow> 'a list \<Rightarrow> nat \<Rightarrow> nat \<Rightarrow> nat \<Rightarrow> nat" where
  "search_after lessf data a i j =
     (if i < j
      then let h = (i + j) div 2
           in if lessf data h a then search_after lessf data a (h + 1) j
              else search_after lessf data a i h
      else i)"
  by pat_completeness auto
termination
  by (relation "measure (\<lambda>(lessf, data, a, i, j). j - i)") auto

function search_before :: "'a less_func \<Rightarrow> 'a list \<Rightarrow> nat \<Rightarrow> nat \<Rightarrow> nat \<Rightarrow> nat" where
  "search_before lessf data m i j =
     (if i < j
      then let h = (i + j) div 2
           in if \<not> lessf data m h then search_before lessf data m (h + 1) j
              else search_before lessf data m i h
      else i)"
  by pat_completeness auto
termination
  by (relation "measure (\<lambda>(lessf, data, m, i, j). j - i)") auto

function search_sym :: "'a less_func \<Rightarrow> 'a list \<Rightarrow> nat \<Rightarrow> nat \<Rightarrow> nat \<Rightarrow> nat" where
  "search_sym lessf data p start r =
     (if start < r
      then let c = (start + r) div 2
           in if \<not> lessf data (p - c) c then search_sym lessf data p (c + 1) r
              else search_sym lessf data p start c
      else start)"
  by pat_completeness auto
termination
  by (relation "measure (\<lambda>(lessf, data, p, start, r). r - start)") auto

declare search_after.simps [simp del] search_before.simps [simp del] search_sym.simps [simp del]

text \<open>
  \<^verbatim>\<open>symMerge_func(data, a, m, b)\<close> merges the runs \<open>data[a:m]\<close> and \<open>data[m:b]\<close>.
  A run of one element is inserted into the other run by swaps (\<^verbatim>\<open>for k := a; k < i-1; k++\<close>,
  \<^verbatim>\<open>for k := m; k > i; k--\<close>); otherwise the runs are cut, rotated and merged recursively.
\<close>

function symMerge_func :: "'a less_func \<Rightarrow> 'a list \<Rightarrow> nat \<Rightarrow> nat \<Rightarrow> nat \<Rightarrow> 'a list" where
  "symMerge_func lessf data a m b =
     (if m - a = 1
      then let i = search_after lessf data a m b
           in fold (\<lambda>k data. swap data k (k + 1)) [a ..< i - 1] data
      else if b - m = 1
      then let i = search_before lessf data m a m
           in fold (\<lambda>k data. swap data k (k - 1)) (rev [i + 1 ..< m + 1]) data
      else let mid = (a + b) div 2;
               n = mid + m;
               start = (if m > mid then n - b else a);
               r = (if m > mid then mid else m);
               p = n - 1;
               start = search_sym lessf data p start r;
               end' = n - start;
               data = (if start < m \<and> m < end' then rotate_func data start m end' else data);
               data = (if a < start \<and> start < mid then symMerge_func lessf data a start mid
                       else data);
               data = (if mid < end' \<and> end' < b then symMerge_func lessf data mid end' b
                       else data)
           in data)"
  by pat_completeness auto
termination
proof (relation "measure (\<lambda>(lessf, data, a, m, b). b - a)", goal_cases)
  case 1
  show ?case by simp
next
  case (2 lessf data a m b mid n start0 r p start end' data1)
  from 2(3) 2(11) have "mid - a < b - a" by linarith
  then show ?case by simp
next
  case (3 lessf data a m b mid n start0 r p start end' data1 data2)
  from 3(3) 3(12) have "b - mid < b - a" by linarith
  then show ?case by simp
qed

declare symMerge_func.simps [simp del]

text \<open>
  The loops of \<^verbatim>\<open>stable_func\<close>.  \<^verbatim>\<open>blockSize\<close> is 20 at first and is doubled after each
  pass, so it is positive; the conditions of the loops say so in the model, which makes the
  recursions total (\<open>insertion_blocks_positive\<close>, \<open>merge_blocks_positive\<close> and
  \<open>merge_passes_positive\<close> below are the loops as the library has them).  The first loop sorts blocks of \<^verbatim>\<open>blockSize\<close> elements by insertion
  (\<^verbatim>\<open>for b <= n\<close>); each pass of the second loop (\<^verbatim>\<open>for blockSize < n\<close>) merges
  neighbouring blocks (\<^verbatim>\<open>for b <= n\<close>) and what remains after them.
\<close>

function insertion_blocks ::
  "'a less_func \<Rightarrow> 'a list \<Rightarrow> nat \<Rightarrow> nat \<Rightarrow> nat \<Rightarrow> nat \<Rightarrow> 'a list \<times> nat" where
  "insertion_blocks lessf data n blockSize a b =
     (if 0 < blockSize \<and> b \<le> n
      then insertion_blocks lessf (insertionSort_func lessf data a b) n blockSize b (b + blockSize)
      else (data, a))"
  by pat_completeness auto
termination
  by (relation "measure (\<lambda>(lessf, data, n, blockSize, a, b). n + 1 - b)") auto

function merge_blocks ::
  "'a less_func \<Rightarrow> 'a list \<Rightarrow> nat \<Rightarrow> nat \<Rightarrow> nat \<Rightarrow> nat \<Rightarrow> 'a list \<times> nat" where
  "merge_blocks lessf data n blockSize a b =
     (if 0 < blockSize \<and> b \<le> n
      then merge_blocks lessf (symMerge_func lessf data a (a + blockSize) b) n blockSize b
             (b + 2 * blockSize)
      else (data, a))"
  by pat_completeness auto
termination
  by (relation "measure (\<lambda>(lessf, data, n, blockSize, a, b). n + 1 - b)") auto

function merge_passes :: "'a less_func \<Rightarrow> 'a list \<Rightarrow> nat \<Rightarrow> nat \<Rightarrow> 'a list" where
  "merge_passes lessf data n blockSize =
     (if 0 < blockSize \<and> blockSize < n
      then let (data, a) = merge_blocks lessf data n blockSize 0 (2 * blockSize);
               m = a + blockSize;
               data = (if m < n then symMerge_func lessf data a m n else data)
           in merge_passes lessf data n (blockSize * 2)
      else data)"
  by pat_completeness auto
termination
  by (relation "measure (\<lambda>(lessf, data, n, blockSize). n - blockSize)") auto

declare insertion_blocks.simps [simp del] merge_blocks.simps [simp del]
  merge_passes.simps [simp del]

definition stable_func :: "'a less_func \<Rightarrow> 'a list \<Rightarrow> nat \<Rightarrow> 'a list" where
  "stable_func lessf data n =
     (let blockSize = 20;
          (data, a) = insertion_blocks lessf data n blockSize 0 blockSize;
          data = insertionSort_func lessf data a n
      in merge_passes lessf data n blockSize)"

definition SliceStable :: "'a list \<Rightarrow> 'a less_func \<Rightarrow> 'a list" where
  "SliceStable x lessf = stable_func lessf x (length x)"

subsection \<open>WalkSets\<close>

text \<open>
  Modelled from the spec: \<^verbatim>\<open>eval.SetWalker\<close>, the type of the callback of \<^verbatim>\<open>WalkSets\<close>,
  is declared in package \<^verbatim>\<open>eval\<close>.  The spec says that the callback is given one set
  per stage and that it may fail with an evaluation error.  The callback of the model takes
  the set and its own state \<open>'s\<close> (what the closure has captured) and returns the error,
  \<open>None\<close> for nil, with the new state.  It has no access to the registry, which the spec
  has read-only during the traversal, and it returns: a callback that panics is not
  modelled.
\<close>

type_synonym 's SetWalker = "ExpressionSet \<Rightarrow> 's \<Rightarrow> string option \<times> 's"

text \<open>
  \<^verbatim>\<open>WalkSets\<close> has no result.  It ends by returning or by a panic; in both cases the model
  gives the registry as the function left it and the state of the callback after its last
  call.
\<close>

datatype 'a outcome = Returned 'a | Panicked panic 'a

fun final :: "'a outcome \<Rightarrow> 'a" where
  "final (Returned x) = x"
| "final (Panicked p x) = x"

text \<open>
  The loops that fill the expression sets.  \<open>append_nodes\<close> is
  \<^verbatim>\<open>for _, e := range es { batch = append(batch, e) }\<close>, where \<open>node\<close> is the conversion of the
  element to \<^verbatim>\<open>eval.Expression\<close>.
\<close>

primrec append_nodes :: "('a \<Rightarrow> Expression) \<Rightarrow> ExpressionSet \<Rightarrow> 'a list \<Rightarrow> ExpressionSet" where
  "append_nodes node batch [] = batch"
| "append_nodes node batch (e # es) = append_nodes node (batch @ [node e]) es"

text \<open>
  \<^verbatim>\<open>for i, mt := range r.ResultTypes { mtypes[i] = mt.(*ResultTypeExpr) }\<close>: the type
  assertion panics on an element that is not a result type.
\<close>

primrec result_types :: "UserType list \<Rightarrow> panic + ExpressionSet" where
  "result_types [] = Inr []"
| "result_types (mt # mts) =
     (case mt of
        UserTypeV t \<Rightarrow> Inl TypeAssertion
      | ResultTypeV t \<Rightarrow>
          (case result_types mts of
             Inl p \<Rightarrow> Inl p
           | Inr mtypes \<Rightarrow> Inr (ResultTypeE t # mtypes)))"


text \<open>
  \<^verbatim>\<open>for i, s := range r.Services\<close>: \<^verbatim>\<open>services[i] = s\<close> fills \<^verbatim>\<open>services\<close> in the order
  of the registry, and the inner loop appends the methods of \<open>s\<close> to \<^verbatim>\<open>methods\<close>.
\<close>

primrec collect_methods :: "ExpressionSet \<Rightarrow> ServiceExpr list \<Rightarrow> ExpressionSet" where
  "collect_methods methods [] = methods"
| "collect_methods methods (s # ss) =
     collect_methods (append_nodes MethodE methods (Methods s)) ss"

text \<open>
  \<^verbatim>\<open>for i, svc := range r.API.HTTP.Services\<close>: the inner loops append the endpoints of
  \<open>svc\<close> to \<^verbatim>\<open>endpoints\<close> and its file servers to \<^verbatim>\<open>servers\<close>.
\<close>

primrec collect_http ::
  "ExpressionSet \<times> ExpressionSet \<Rightarrow> HTTPServiceExpr list \<Rightarrow> ExpressionSet \<times> ExpressionSet" where
  "collect_http sets [] = sets"
| "collect_http sets (svc # svcs) =
     collect_http
       (append_nodes HTTPEndpointE (fst sets) (HTTPEndpoints svc),
        append_nodes HTTPFileServerE (snd sets) (FileServers svc))
       svcs"

text \<open>
  \<^verbatim>\<open>for i, svc := range r.API.GRPC.Services\<close>: the inner loop runs
  \<^verbatim>\<open>grpcms = append(endpoints, e)\<close>, where \<^verbatim>\<open>endpoints\<close> is the set of the HTTP
  endpoints: each turn assigns that set with \<open>e\<close> at its end to \<^verbatim>\<open>grpcms\<close>.
\<close>

primrec assign_grpcms :: "ExpressionSet \<Rightarrow> ExpressionSet \<Rightarrow> GRPCEndpointExpr list \<Rightarrow> ExpressionSet" where
  "assign_grpcms endpoints grpcms [] = grpcms"
| "assign_grpcms endpoints grpcms (e # es) =
     assign_grpcms endpoints (endpoints @ [GRPCEndpointE e]) es"

primrec collect_grpc :: "ExpressionSet \<Rightarrow> ExpressionSet \<Rightarrow> GRPCServiceExpr list \<Rightarrow> ExpressionSet" where
  "collect_grpc endpoints grpcms [] = grpcms"
| "collect_grpc endpoints grpcms (svc # svcs) =
     collect_grpc endpoints (assign_grpcms endpoints grpcms (GRPCEndpoints svc)) svcs"

text \<open>
  Modelled from the spec: \<^verbatim>\<open>NewAPIExpr\<close> is declared in another file of package
  \<^verbatim>\<open>expr\<close>.  The spec says that it creates an empty default API node; the node has the
  given name, no server and no transport service.
\<close>

definition NewAPIExpr :: "string \<Rightarrow> APIExpr" where
  "NewAPIExpr name =
     \<lparr>APIName = name, HTTP = \<lparr>HTTPServices = []\<rparr>, GRPC = \<lparr>GRPCServices = []\<rparr>, Servers = []\<rparr>"

text \<open>
  The two \<^verbatim>\<open>less\<close> functions given to \<^verbatim>\<open>sort.SliceStable\<close>: \<^verbatim>\<open>less(i, j)\<close> holds when
  the parent name of element \<open>j\<close> is the name of element \<open>i\<close>.
\<close>

definition http_less :: "HTTPServiceExpr less_func" where
  "http_less services i j = (HTTPParentName (services ! j) = HTTPName (services ! i))"

definition grpc_less :: "GRPCServiceExpr less_func" where
  "grpc_less services i j = (GRPCParentName (services ! j) = GRPCName (services ! i))"

text \<open>
  \<^verbatim>\<open>WalkSets\<close>, statement by statement.  The result of each call of \<^verbatim>\<open>walk\<close> is dropped,
  as in the source, where every call is a statement of its own; only the state of the
  callback goes on to the next call.  The two calls of \<^verbatim>\<open>sort.SliceStable\<close> sort the
  slices \<^verbatim>\<open>r.API.HTTP.Services\<close> and \<^verbatim>\<open>r.API.GRPC.Services\<close> of the registry themselves,
  and the loops that follow read the sorted slices.
\<close>

definition WalkSets :: "'s SetWalker \<Rightarrow> RootExpr \<Rightarrow> 's \<Rightarrow> (RootExpr \<times> 's) outcome" where
  "WalkSets walk r0 s0 =
     (let api = (case API r0 of None \<Rightarrow> NewAPIExpr ''API'' | Some api \<Rightarrow> api);
          r = r0\<lparr>API := Some api\<rparr>;
          s1 = snd (walk [APIE api] s0);
          types = map (\<lambda>t. AttributeE (Attribute t)) (Types r);
          s2 = snd (walk types s1)
      in case result_types (ResultTypes r) of
           Inl p \<Rightarrow> Panicked p (r, s2)
         | Inr mtypes \<Rightarrow>
             (let s3 = snd (walk mtypes s2);
                  services = map ServiceE (Services r);
                  methods = collect_methods [] (Services r);
                  s4 = snd (walk services s3);
                  s5 = snd (walk methods s4);
                  api = api\<lparr>HTTP := (HTTP api)\<lparr>HTTPServices :=
                          SliceStable (HTTPServices (HTTP api)) http_less\<rparr>\<rparr>;
                  r = r\<lparr>API := Some api\<rparr>;
                  httpsvcs = map HTTPServiceE (HTTPServices (HTTP api));
                  sets = collect_http ([], []) (HTTPServices (HTTP api));
                  endpoints = fst sets;
                  servers = snd sets;
                  s6 = snd (walk httpsvcs s5);
                  s7 = snd (walk endpoints s6);
                  s8 = snd (walk servers s7);
                  api = api\<lparr>GRPC := (GRPC api)\<lparr>GRPCServices :=
                          SliceStable (GRPCServices (GRPC api)) grpc_less\<rparr>\<rparr>;
                  r = r\<lparr>API := Some api\<rparr>;
                  grpcsvcs = map GRPCServiceE (GRPCServices (GRPC api));
                  grpcms = collect_grpc endpoints [] (GRPCServices (GRPC api));
                  s9 = snd (walk grpcsvcs s8);
                  s10 = snd (walk grpcms s9)
              in Returned (r, s10)))"

text \<open>
  What a walk presents is what its callback receives.  \<open>recording walk\<close> is the
  callback \<open>walk\<close> that also keeps, in order, every set it is called with and the error
  it answers; \<open>presented\<close> is the sequence of sets of a whole walk, \<open>answers\<close> the
  sequence of the callback's answers.
\<close>

definition recording ::
  "'s SetWalker \<Rightarrow> ((ExpressionSet \<times> string option) list \<times> 's) SetWalker" where
  "recording walk batch st =
     (let res = walk batch (snd st)
      in (fst res, (fst st @ [(batch, fst res)], snd res)))"

definition walk_log ::
  "'s SetWalker \<Rightarrow> RootExpr \<Rightarrow> 's \<Rightarrow> (ExpressionSet \<times> string option) list" where
  "walk_log walk r s = fst (snd (final (WalkSets (recording walk) r ([], s))))"

definition presented :: "'s SetWalker \<Rightarrow> RootExpr \<Rightarrow> 's \<Rightarrow> ExpressionSet list" where
  "presented walk r s = map fst (walk_log walk r s)"

definition answers :: "'s SetWalker \<Rightarrow> RootExpr \<Rightarrow> 's \<Rightarrow> string option list" where
  "answers walk r s = map snd (walk_log walk r s)"

text \<open>The registry that a walk leaves behind.\<close>

definition walked :: "'s SetWalker \<Rightarrow> RootExpr \<Rightarrow> 's \<Rightarrow> RootExpr" where
  "walked walk r s = fst (final (WalkSets walk r s))"

text \<open>
  Names for three values that \<^verbatim>\<open>WalkSets\<close> computes on its way: the API node after the
  first statement (the node of the registry, or the default one), and the two sequences of
  transport services after their sort.
\<close>

definition ensured_API :: "RootExpr \<Rightarrow> APIExpr" where
  "ensured_API r = (case API r of None \<Rightarrow> NewAPIExpr ''API'' | Some api \<Rightarrow> api)"

definition sorted_http :: "RootExpr \<Rightarrow> HTTPServiceExpr list" where
  "sorted_http r = SliceStable (HTTPServices (HTTP (ensured_API r))) http_less"

definition sorted_grpc :: "RootExpr \<Rightarrow> GRPCServiceExpr list" where
  "sorted_grpc r = SliceStable (GRPCServices (GRPC (ensured_API r))) grpc_less"

subsection \<open>Example registries and callbacks\<close>

text \<open>The registry as the package creates it (\<^verbatim>\<open>var Root\<close>), and the same with an API node.\<close>

definition empty_root :: RootExpr where
  "empty_root =
     \<lparr>API = None, Services = [], Errors = [], Types = [], ResultTypes = [],
      GeneratedTypes = [], Conversions = [], Creations = [], Schemes = [], Meta = Map.empty\<rparr>"

definition api_root :: RootExpr where
  "api_root = empty_root\<lparr>API := Some (NewAPIExpr ''API'')\<rparr>"

text \<open>A registry whose API declares one server, with an \<^verbatim>\<open>http\<close> URL.\<close>

definition server_root :: RootExpr where
  "server_root =
     empty_root\<lparr>API := Some ((NewAPIExpr ''API'')\<lparr>Servers := [\<lparr>URL = ''http://example.com''\<rparr>]\<rparr>)\<rparr>"

text \<open>
  The scenario of the spec: services \<open>S1\<close> with methods \<open>M1\<close>, \<open>M2\<close> and \<open>S2\<close> with
  method \<open>M3\<close>; the HTTP service of \<open>S1\<close>, whose parent is \<open>S2\<close>, stored before the
  HTTP service of \<open>S2\<close>; one result type.
\<close>

definition H1 :: HTTPServiceExpr where
  "H1 = \<lparr>HTTPName = ''S1'', HTTPParentName = ''S2'',
          HTTPEndpoints = [HTTPEndpointExpr ''M1'', HTTPEndpointExpr ''M2''], FileServers = []\<rparr>"

definition H2 :: HTTPServiceExpr where
  "H2 = \<lparr>HTTPName = ''S2'', HTTPParentName = [],
          HTTPEndpoints = [HTTPEndpointExpr ''M3''], FileServers = [HTTPFileServerExpr ''public'']\<rparr>"

definition scenario_root :: RootExpr where
  "scenario_root =
     empty_root
       \<lparr>API := Some ((NewAPIExpr ''calc'')\<lparr>HTTP := \<lparr>HTTPServices = [H1, H2]\<rparr>\<rparr>),
        Services :=
          [\<lparr>ServiceName = ''S1'', Methods = [MethodExpr ''M1'', MethodExpr ''M2'']\<rparr>,
           \<lparr>ServiceName = ''S2'', Methods = [MethodExpr ''M3'']\<rparr>],
        ResultTypes :=
          [ResultTypeV \<lparr>ResultTypeName = ''Sum'', ResultAttribute = AttributeExpr ''Sum'',
                        Identifier = ''application/vnd.sum''\<rparr>]\<rparr>"

text \<open>
  A registry with one parent and one child among its HTTP services and among its gRPC
  services: the child \<open>B\<close> names \<open>A\<close> as its parent, and a service \<open>X\<close> without
  parent is stored between them, the child first.
\<close>

definition child_http :: HTTPServiceExpr where
  "child_http = \<lparr>HTTPName = ''B'', HTTPParentName = ''A'', HTTPEndpoints = [], FileServers = []\<rparr>"

definition other_http :: HTTPServiceExpr where
  "other_http = \<lparr>HTTPName = ''X'', HTTPParentName = [], HTTPEndpoints = [], FileServers = []\<rparr>"

definition parent_http :: HTTPServiceExpr where
  "parent_http = \<lparr>HTTPName = ''A'', HTTPParentName = [], HTTPEndpoints = [], FileServers = []\<rparr>"

definition child_grpc :: GRPCServiceExpr where
  "child_grpc = \<lparr>GRPCName = ''B'', GRPCParentName = ''A'', GRPCEndpoints = []\<rparr>"

definition other_grpc :: GRPCServiceExpr where
  "other_grpc = \<lparr>GRPCName = ''X'', GRPCParentName = [], GRPCEndpoints = []\<rparr>"

definition parent_grpc :: GRPCServiceExpr where
  "parent_grpc = \<lparr>GRPCName = ''A'', GRPCParentName = [], GRPCEndpoints = []\<rparr>"


definition family_root :: RootExpr where
  "family_root =
     empty_root
       \<lparr>API := Some ((NewAPIExpr ''API'')
          \<lparr>HTTP := \<lparr>HTTPServices = [child_http, other_http, parent_http]\<rparr>,
           GRPC := \<lparr>GRPCServices = [child_grpc, other_grpc, parent_grpc]\<rparr>\<rparr>)\<rparr>"

text \<open>A registry with one HTTP service, \<open>H2\<close>, and one gRPC service with two endpoints.\<close>

definition G1 :: GRPCServiceExpr where
  "G1 = \<lparr>GRPCName = ''S1'', GRPCParentName = [],
          GRPCEndpoints = [GRPCEndpointExpr ''M1'', GRPCEndpointExpr ''M2'']\<rparr>"

definition transport_root :: RootExpr where
  "transport_root =
     empty_root
       \<lparr>API := Some ((NewAPIExpr ''API'')
          \<lparr>HTTP := \<lparr>HTTPServices = [H2]\<rparr>, GRPC := \<lparr>GRPCServices = [G1]\<rparr>\<rparr>)\<rparr>"


text \<open>Two callbacks without state: one that never fails and one that fails on every set.\<close>

definition accepting :: "unit SetWalker" where
  "accepting batch s = (None, s)"

definition failing :: "unit SetWalker" where
  "failing batch s = (Some ''evaluation error'', s)"

section \<open>Properties\<close>

subsection \<open>NameMap\<close>

lemma Split_no_sep: "sep \<notin> set s \<Longrightarrow> Split s sep = [s]"
  by (subst Split.simps) simp

lemma Split_sep:
  "sep \<in> set s \<Longrightarrow>
   Split s sep = takeWhile (\<lambda>c. c \<noteq> sep) s # Split (tl (dropWhile (\<lambda>c. c \<noteq> sep) s)) sep"
  by (subst Split.simps) simp

lemma Split_not_Nil: "Split s sep \<noteq> []"
  by (subst Split.simps) simp

lemma hd_Split: "hd (Split s sep) = takeWhile (\<lambda>c. c \<noteq> sep) s"
proof (cases "sep \<in> set s")
  case True
  then show ?thesis by (simp add: Split_sep)
next
  case False
  then have all: "takeWhile (\<lambda>c. c \<noteq> sep) s = s" by (induction s) auto
  show ?thesis by (simp only: Split_no_sep [OF False] list.sel all)
qed

lemma Split_second:
  assumes "sep \<in> set s"
  shows "Split s sep ! 1 = takeWhile (\<lambda>c. c \<noteq> sep) (tl (dropWhile (\<lambda>c. c \<noteq> sep) s))"
    and "length (Split s sep) > 1"
proof -
  let ?rest = "tl (dropWhile (\<lambda>c. c \<noteq> sep) s)"
  have eq: "Split s sep = takeWhile (\<lambda>c. c \<noteq> sep) s # Split ?rest sep"
    using assms by (rule Split_sep)
  have "Split s sep ! 1 = hd (Split ?rest sep)"
    unfolding eq using Split_not_Nil [of ?rest sep] by (simp add: hd_conv_nth)
  then show "Split s sep ! 1 = takeWhile (\<lambda>c. c \<noteq> sep) ?rest"
    by (simp add: hd_Split)
  show "length (Split s sep) > 1"
    unfolding eq using Split_not_Nil [of ?rest sep] by (cases "Split ?rest sep") auto
qed

text \<open>
  C10.  For every input string, \<^verbatim>\<open>NameMap\<close> returns a pair (it does not panic).  The first
  component is the part of the string before its first colon, the whole string when it has
  no colon.  The second component is the first one when the string has no colon; otherwise
  it is the segment that starts after the first colon and ends before the second colon (at
  the end of the string when there is no second colon), not the whole remainder.
\<close>

theorem NameMap_components:
  "NameMap encoded =
     Inr (takeWhile (\<lambda>c. c \<noteq> CHR '':'') encoded,
          if CHR '':'' \<in> set encoded
          then takeWhile (\<lambda>c. c \<noteq> CHR '':'') (tl (dropWhile (\<lambda>c. c \<noteq> CHR '':'') encoded))
          else takeWhile (\<lambda>c. c \<noteq> CHR '':'') encoded)"
proof (cases "CHR '':'' \<in> set encoded")
  case True
  have first: "Split encoded (CHR '':'') ! 0 = takeWhile (\<lambda>c. c \<noteq> CHR '':'') encoded"
    using hd_Split [of encoded "CHR '':''"] Split_not_Nil [of encoded "CHR '':''"]
    by (simp add: hd_conv_nth)
  from True first Split_second [OF True] show ?thesis
    by (simp add: NameMap_def Let_def Split_not_Nil)
next
  case False
  then show ?thesis
    by (simp add: NameMap_def Let_def Split_no_sep) (induction encoded; auto)
qed

theorem NameMap_components_witness:
  "NameMap ''header:X-Request-Id:rest'' = Inr (''header'', ''X-Request-Id'') \<and>
   NameMap ''name'' = Inr (''name'', ''name'')"
  using NameMap_components [of "''header:X-Request-Id:rest''"] NameMap_components [of "''name''"]
  by simp

subsection \<open>UserType\<close>

lemma first_named_find: "first_named name ts = find (\<lambda>t. Name t = name) ts"
  by (induction ts) auto

lemma find_two_lists:
  "find P (xs @ ys) = (case find P xs of Some x \<Rightarrow> Some x | None \<Rightarrow> find P ys)"
  by (induction xs) auto

text \<open>
  C9.  \<^verbatim>\<open>UserType(name)\<close> is the first node with that name in the user types followed by
  the result types: a match among the user types wins over one among the result types.  The
  result is nil exactly when no node of either collection has the name.
\<close>

theorem UserType_first_match:
  "UserType r name = find (\<lambda>t. Name t = name) (Types r @ ResultTypes r) \<and>
   (UserType r name = None) = (name \<notin> Name ` (set (Types r) \<union> set (ResultTypes r)))"
proof -
  have eq: "UserType r name = find (\<lambda>t. Name t = name) (Types r @ ResultTypes r)"
    by (simp add: UserType_def first_named_find find_two_lists split: option.splits)
  moreover have "(find (\<lambda>t. Name t = name) (Types r @ ResultTypes r) = None)
      = (name \<notin> Name ` (set (Types r) \<union> set (ResultTypes r)))"
    by (auto simp: find_None_iff)
  ultimately show ?thesis by simp
qed

subsection \<open>HTTPSchemes\<close>

lemma collect_schemes_keeps:
  "collect_schemes Parse ss schemes = Inl NilDereference \<or>
   collect_schemes Parse ss schemes = Inr schemes"
  by (induction ss) (auto split: sum.splits)

text \<open>
  C3.  The claim is that \<^verbatim>\<open>HTTPSchemes\<close> returns the sorted distinct schemes of the
  servers' URLs.  The code does not: whatever \<^verbatim>\<open>url.Parse\<close> answers, \<^verbatim>\<open>HTTPSchemes\<close>
  either panics (no API node, or a URL that does not parse) or returns no scheme at all.
  For a server at \<^verbatim>\<open>http://example.com\<close>, which parses, the result is empty where the
  claim has \<^verbatim>\<open>http\<close>.
\<close>

theorem HTTPSchemes_never_lists:
  "HTTPSchemes Parse r = Inl NilDereference \<or> HTTPSchemes Parse r = Inr []"
proof (cases "API r")
  case None
  then show ?thesis by (simp add: HTTPSchemes_def)
next
  case (Some api)
  from collect_schemes_keeps [of Parse "Servers api" "{}"] Some show ?thesis
    by (auto simp: HTTPSchemes_def)
qed

lemma HTTPSchemes_server_root:
  "HTTPSchemes (\<lambda>raw. Inr \<lparr>Scheme = ''http''\<rparr>) server_root = Inr []"
  by (simp add: HTTPSchemes_def server_root_def empty_root_def NewAPIExpr_def)

subsection \<open>Validate\<close>

text \<open>
  C8.  \<^verbatim>\<open>Validate\<close> returns a composite with no failure when the API node is set, and
  with exactly one failure, on the root and with the message \<^verbatim>\<open>Missing API declaration\<close>,
  when it is not.  The composite has zero entries exactly when the registry passes the
  check: an empty composite is the answer "no error".
\<close>

theorem Validate_API:
  "(API r \<noteq> None \<longrightarrow> VErrors (Validate r) = [] \<and> VExpressions (Validate r) = []) \<and>
   (API r = None \<longrightarrow>
      VErrors (Validate r) = [''Missing API declaration''] \<and>
      VExpressions (Validate r) = [RootE r]) \<and>
   (VErrors (Validate r) = []) = (API r \<noteq> None)"
  by (auto simp: Validate_def Add_def no_errors_def Let_def)

theorem Validate_API_witness:
  "API api_root \<noteq> None \<and> VErrors (Validate api_root) = [] \<and>
   API empty_root = None \<and> VErrors (Validate empty_root) = [''Missing API declaration''] \<and>
   VExpressions (Validate empty_root) = [RootE empty_root]"
  using Validate_API [of api_root] Validate_API [of empty_root]
  by (simp add: api_root_def empty_root_def)

subsection \<open>WalkSets: the sets presented\<close>

lemma append_nodes_map: "append_nodes node batch es = batch @ map node es"
  by (induction es arbitrary: batch) auto

lemma collect_methods_concat:
  "collect_methods methods ss = methods @ concat (map (\<lambda>s. map MethodE (Methods s)) ss)"
  by (induction ss arbitrary: methods) (auto simp: append_nodes_map)

lemma collect_http_concat:
  "collect_http sets svcs =
     (fst sets @ concat (map (\<lambda>svc. map HTTPEndpointE (HTTPEndpoints svc)) svcs),
      snd sets @ concat (map (\<lambda>svc. map HTTPFileServerE (FileServers svc)) svcs))"
  by (induction svcs arbitrary: sets) (auto simp: append_nodes_map)

lemma assign_grpcms_last:
  "assign_grpcms endpoints grpcms es =
     (if es = [] then grpcms else endpoints @ [GRPCEndpointE (last es)])"
  by (induction es arbitrary: grpcms) auto

lemma collect_grpc_last:
  "collect_grpc endpoints grpcms svcs =
     (if concat (map GRPCEndpoints svcs) = [] then grpcms
      else endpoints @ [GRPCEndpointE (last (concat (map GRPCEndpoints svcs)))])"
  by (induction svcs arbitrary: grpcms) (auto simp: assign_grpcms_last)


text \<open>
  The sets of a walk that returns, in the order of their presentation, and those of a walk
  that panics at the type assertion.
\<close>

lemma presented_Returned:
  assumes "result_types (ResultTypes r) = Inr mtypes"
  shows "presented walk r s =
     [[APIE (ensured_API r)],
      map (\<lambda>t. AttributeE (Attribute t)) (Types r),
      mtypes,
      map ServiceE (Services r),
      collect_methods [] (Services r),
      map HTTPServiceE (sorted_http r),
      fst (collect_http ([], []) (sorted_http r)),
      snd (collect_http ([], []) (sorted_http r)),
      map GRPCServiceE (sorted_grpc r),
      collect_grpc (fst (collect_http ([], []) (sorted_http r))) [] (sorted_grpc r)]"
  using assms
  by (simp add: presented_def walk_log_def WalkSets_def recording_def Let_def
      ensured_API_def sorted_http_def sorted_grpc_def)

lemma presented_Panicked:
  assumes "result_types (ResultTypes r) = Inl p"
  shows "presented walk r s =
     [[APIE (ensured_API r)], map (\<lambda>t. AttributeE (Attribute t)) (Types r)]"
  using assms
  by (simp add: presented_def walk_log_def WalkSets_def recording_def Let_def ensured_API_def)

lemma presented_first:
  "presented walk r s \<noteq> [] \<and> hd (presented walk r s) = [APIE (ensured_API r)]"
  by (cases "result_types (ResultTypes r)")
    (simp_all add: presented_Returned presented_Panicked)

lemma result_types_Inr:
  "result_types ts = Inr mtypes \<Longrightarrow>
   \<exists>rts. ts = map ResultTypeV rts \<and> mtypes = map ResultTypeE rts"
proof (induction ts arbitrary: mtypes)
  case Nil
  then show ?case by simp
next
  case (Cons t ts)
  then show ?case
    by (cases t; cases "result_types ts") (auto simp: map_eq_Cons_conv Cons_eq_map_conv)
qed

text \<open>
  A slice of fewer than 20 elements is one block for \<^verbatim>\<open>stable_func\<close>: it is sorted by
  insertion and nothing is merged.
\<close>

lemma SliceStable_short:
  "length x < 20 \<Longrightarrow> SliceStable x lessf = insertionSort_func lessf x 0 (length x)"
  by (simp add: SliceStable_def stable_func_def insertion_blocks.simps merge_passes.simps)

lemma SliceStable_Nil: "SliceStable [] lessf = []"
  by (simp add: SliceStable_short insertionSort_func_def)

lemma sorted_http_scenario: "sorted_http scenario_root = [H2, H1]"
  by (simp add: sorted_http_def ensured_API_def scenario_root_def empty_root_def NewAPIExpr_def
      SliceStable_short insertionSort_func_def insert_down.simps swap_def http_less_def
      H1_def H2_def)

lemma walked_API:
  "API (walked walk r s) = Some (ensured_API r) \<or>
   API (walked walk r s) =
     Some ((ensured_API r)
       \<lparr>HTTP := (HTTP (ensured_API r))\<lparr>HTTPServices := sorted_http r\<rparr>,
        GRPC := (GRPC (ensured_API r))\<lparr>GRPCServices := sorted_grpc r\<rparr>\<rparr>)"
  by (cases "result_types (ResultTypes r)")
     (simp_all add: walked_def WalkSets_def Let_def ensured_API_def sorted_http_def
        sorted_grpc_def)






text \<open>
  C7.  In a walk over a registry without API node, the first set presented holds exactly
  the default API node that \<^verbatim>\<open>WalkSets\<close> creates, no other set of the walk holds an API
  node, and the registry has that node when the walk is over.
\<close>

theorem default_API_first:
  assumes "API r = None"
  shows "presented walk r s \<noteq> [] \<and>
         hd (presented walk r s) = [APIE (NewAPIExpr ''API'')] \<and>
         filter (\<lambda>batch. \<exists>api. APIE api \<in> set batch) (presented walk r s) =
           [[APIE (NewAPIExpr ''API'')]] \<and>
         API (walked walk r s) = Some (NewAPIExpr ''API'')"
proof -
  from assms have api: "ensured_API r = NewAPIExpr ''API''"
    by (simp add: ensured_API_def)
  have first: "presented walk r s \<noteq> [] \<and> hd (presented walk r s) = [APIE (NewAPIExpr ''API'')]"
    using presented_first [of walk r s] by (simp add: api)
  have once: "filter (\<lambda>batch. \<exists>api. APIE api \<in> set batch) (presented walk r s) =
           [[APIE (NewAPIExpr ''API'')]]"
  proof (cases "result_types (ResultTypes r)")
    case (Inl p)
    then show ?thesis by (auto simp: presented_Panicked api)
  next
    case (Inr mtypes)
    have "\<And>api. APIE api \<notin> set mtypes"
      using result_types_Inr [OF Inr] by auto
    then show ?thesis
      by (auto simp: presented_Returned [OF Inr] api collect_methods_concat
          collect_http_concat collect_grpc_last)
  qed
  have "sorted_http r = []" "sorted_grpc r = []"
    by (simp_all add: sorted_http_def sorted_grpc_def api NewAPIExpr_def SliceStable_Nil)
  then have "API (walked walk r s) = Some (NewAPIExpr ''API'')"
    using walked_API [of walk r s] by (auto simp: api NewAPIExpr_def)
  with first once show ?thesis by simp
qed

theorem default_API_first_witness:
  "API empty_root = None \<and>
   hd (presented accepting empty_root ()) = [APIE (NewAPIExpr ''API'')] \<and>
   API (walked accepting empty_root ()) = Some (NewAPIExpr ''API'')"
  using default_API_first [of empty_root accepting "()"]
  by (simp add: empty_root_def)

text \<open>
  C4.  The claim is that a failure of the callback on one set keeps the later sets from
  being presented.  \<^verbatim>\<open>WalkSets\<close> does not look at what the callback returns: in the
  scenario, with a callback that fails on every set, starting with the first, all ten sets
  are presented, the methods among them.
\<close>

theorem fail_fast_counterexample:
  "answers failing scenario_root () ! 0 = Some ''evaluation error'' \<and>
   length (presented failing scenario_root ()) = 10 \<and>
   presented failing scenario_root () ! 4 =
     [MethodE (MethodExpr ''M1''), MethodE (MethodExpr ''M2''), MethodE (MethodExpr ''M3'')]"
proof -
  have rt: "result_types (ResultTypes scenario_root) =
      Inr [ResultTypeE \<lparr>ResultTypeName = ''Sum'', ResultAttribute = AttributeExpr ''Sum'',
                        Identifier = ''application/vnd.sum''\<rparr>]"
    by (simp add: scenario_root_def empty_root_def)
  have "answers failing scenario_root () ! 0 = Some ''evaluation error''"
    by (simp add: answers_def walk_log_def WalkSets_def recording_def Let_def failing_def rt)
  moreover have "length (presented failing scenario_root ()) = 10"
    by (simp add: presented_Returned [OF rt])
  moreover have "presented failing scenario_root () ! 4 =
     [MethodE (MethodExpr ''M1''), MethodE (MethodExpr ''M2''), MethodE (MethodExpr ''M3'')]"
    by (simp add: presented_Returned [OF rt] collect_methods_concat)
       (simp add: scenario_root_def empty_root_def)
  ultimately show ?thesis by simp
qed

text \<open>
  C4, amended.  The sets presented do not depend on the callback: whatever the callback
  answers, and whatever its state, a walk presents the sets that it presents to a callback
  that never fails.  A failure on one set does not stop the walk.
\<close>

theorem callback_ignored: "presented walk r s = presented accepting r ()"
  by (cases "result_types (ResultTypes r)")
     (simp_all add: presented_Returned presented_Panicked)

subsection \<open>sort.SliceStable keeps the elements\<close>

text \<open>
  Every step of the sort is a swap of two elements inside the slice, so the sorted slice
  has the elements of the slice it was given, each as often: this holds for every
  \<^verbatim>\<open>less\<close>, ordering or not.  The lemmas follow the functions of the library, with the
  ranges in which they are called.  The first four say that the loops of the model are the
  loops of the library wherever the library runs them, with positive lengths and block
  sizes.
\<close>

lemma rotate_loop_positive:
  "0 < i \<Longrightarrow> 0 < j \<Longrightarrow>
   rotate_loop data m i j =
     (if i \<noteq> j
      then if i > j then rotate_loop (swapRange_func data (m - i) m j) m (i - j) j
           else rotate_loop (swapRange_func data (m - i) (m + j - i) i) m i (j - i)
      else (data, i))"
  by (subst rotate_loop.simps) simp

lemma insertion_blocks_positive:
  "0 < blockSize \<Longrightarrow>
   insertion_blocks lessf data n blockSize a b =
     (if b \<le> n
      then insertion_blocks lessf (insertionSort_func lessf data a b) n blockSize b
             (b + blockSize)
      else (data, a))"
  by (subst insertion_blocks.simps) simp

lemma merge_blocks_positive:
  "0 < blockSize \<Longrightarrow>
   merge_blocks lessf data n blockSize a b =
     (if b \<le> n
      then merge_blocks lessf (symMerge_func lessf data a (a + blockSize) b) n blockSize b
             (b + 2 * blockSize)
      else (data, a))"
  by (subst merge_blocks.simps) simp

lemma merge_passes_positive:
  "0 < blockSize \<Longrightarrow>
   merge_passes lessf data n blockSize =
     (if blockSize < n
      then let (data, a) = merge_blocks lessf data n blockSize 0 (2 * blockSize);
               m = a + blockSize;
               data = (if m < n then symMerge_func lessf data a m n else data)
           in merge_passes lessf data n (blockSize * 2)
      else data)"
  by (subst merge_passes.simps) simp

lemma mset_swap_data:
  "i < length data \<Longrightarrow> j < length data \<Longrightarrow> mset (swap data i j) = mset data"
  unfolding swap_def by (rule mset_swap)

lemma mset_fold_steps:
  assumes "\<And>k d. k \<in> set ks \<Longrightarrow> length d = n \<Longrightarrow> mset (f k d) = mset d"
    and "length data = n"
  shows "mset (fold f ks data) = mset data"
  using assms
proof (induction ks arbitrary: data)
  case Nil
  then show ?case by simp
next
  case (Cons k ks)
  have step: "mset (f k data) = mset data"
    using Cons.prems by simp
  then have "length (f k data) = n"
    using Cons.prems(2) mset_eq_length by fastforce
  then have "mset (fold f ks (f k data)) = mset (f k data)"
    using Cons.IH Cons.prems(1) by simp
  with step show ?case by simp
qed

lemma mset_insert_down:
  "j < length data \<Longrightarrow> mset (insert_down lessf data a j) = mset data"
proof (induction lessf data a j rule: insert_down.induct)
  case (1 lessf data a j)
  show ?case
  proof (cases "j > a \<and> lessf data j (j - 1)")
    case True
    have sw: "mset (swap data j (j - 1)) = mset data"
      using "1.prems" by (simp add: mset_swap_data)
    then have "length (swap data j (j - 1)) = length data"
      by (rule mset_eq_length)
    with "1.IH" [OF True] "1.prems" sw True show ?thesis
      by (subst insert_down.simps) simp
  next
    case False
    then show ?thesis by (subst insert_down.simps) auto
  qed
qed

lemma mset_insertionSort_func:
  "b \<le> length data \<Longrightarrow> mset (insertionSort_func lessf data a b) = mset data"
  unfolding insertionSort_func_def
  by (rule mset_fold_steps [where n = "length data"]) (simp_all add: mset_insert_down)

lemma mset_swapRange_func:
  "a + n \<le> length data \<Longrightarrow> b + n \<le> length data \<Longrightarrow>
   mset (swapRange_func data a b n) = mset data"
  unfolding swapRange_func_def
  by (rule mset_fold_steps [where n = "length data"]) (simp_all add: mset_swap_data)

lemma rotate_loop_mset:
  "0 < i \<Longrightarrow> 0 < j \<Longrightarrow> i \<le> m \<Longrightarrow> m + j \<le> length data \<Longrightarrow>
   mset (fst (rotate_loop data m i j)) = mset data \<and>
   snd (rotate_loop data m i j) \<le> i \<and> snd (rotate_loop data m i j) \<le> j"
proof (induction data m i j rule: rotate_loop.induct)
  case (1 data m i j)
  show ?case
  proof (cases "i = j")
    case True
    then show ?thesis by (subst (1 2 3) rotate_loop.simps) simp
  next
    case False
    show ?thesis
    proof (cases "i > j")
      case True
      let ?d = "swapRange_func data (m - i) m j"
      have sw: "mset ?d = mset data"
        using "1.prems" True by (intro mset_swapRange_func) simp_all
      then have len: "length ?d = length data" by (rule mset_eq_length)
      have "mset (fst (rotate_loop ?d m (i - j) j)) = mset ?d \<and>
            snd (rotate_loop ?d m (i - j) j) \<le> i - j \<and> snd (rotate_loop ?d m (i - j) j) \<le> j"
        using "1.prems" True False len by (intro "1.IH"(1)) simp_all
      with sw True False "1.prems" show ?thesis
        by (subst (1 2 3) rotate_loop.simps) simp
    next
      case ij: False
      let ?d = "swapRange_func data (m - i) (m + j - i) i"
      have sw: "mset ?d = mset data"
        using "1.prems" ij False by (intro mset_swapRange_func) simp_all
      then have len: "length ?d = length data" by (rule mset_eq_length)
      have "mset (fst (rotate_loop ?d m i (j - i))) = mset ?d \<and>
            snd (rotate_loop ?d m i (j - i)) \<le> i \<and> snd (rotate_loop ?d m i (j - i)) \<le> j - i"
        using "1.prems" ij False len by (intro "1.IH"(2)) simp_all
      with sw ij False "1.prems" show ?thesis
        by (subst (1 2 3) rotate_loop.simps) simp
    qed
  qed
qed

lemma mset_rotate_func:
  assumes "a < m" "m < b" "b \<le> length data"
  shows "mset (rotate_func data a m b) = mset data"
proof -
  obtain d i where res: "rotate_loop data m (m - a) (b - m) = (d, i)"
    by (cases "rotate_loop data m (m - a) (b - m)")
  have "mset (fst (rotate_loop data m (m - a) (b - m))) = mset data \<and>
        snd (rotate_loop data m (m - a) (b - m)) \<le> m - a \<and>
        snd (rotate_loop data m (m - a) (b - m)) \<le> b - m"
    using assms by (intro rotate_loop_mset) simp_all
  with res have d: "mset d = mset data" and i: "i \<le> m - a" "i \<le> b - m" by simp_all
  from d have "length d = length data" by (rule mset_eq_length)
  with i assms have "mset (swapRange_func d (m - i) m i) = mset d"
    by (intro mset_swapRange_func) simp_all
  with d res show ?thesis by (simp add: rotate_func_def)
qed

lemma search_after_range:
  "i \<le> j \<Longrightarrow>
   i \<le> search_after lessf data a i j \<and> search_after lessf data a i j \<le> j"
proof (induction lessf data a i j rule: search_after.induct)
  case (1 lessf data a i j)
  show ?case
  proof (cases "i < j")
    case True
    define h where "h = (i + j) div 2"
    from True have h: "i \<le> h" "h < j" by (simp_all add: h_def)
    show ?thesis
    proof (cases "lessf data h a")
      case c: True
      from "1.IH"(1) [OF True h_def [symmetric, THEN sym] c] h
      have "h + 1 \<le> search_after lessf data a (h + 1) j \<and>
            search_after lessf data a (h + 1) j \<le> j" by simp
      with True c h show ?thesis
        by (subst (1 2) search_after.simps) (simp add: Let_def h_def [symmetric])
    next
      case c: False
      from "1.IH"(2) [OF True h_def [symmetric, THEN sym] c] h
      have "i \<le> search_after lessf data a i h \<and>
            search_after lessf data a i h \<le> h" by simp
      with True c h show ?thesis
        by (subst (1 2) search_after.simps) (simp add: Let_def h_def [symmetric])
    qed
  next
    case False
    with "1.prems" show ?thesis by (subst (1 2) search_after.simps) simp
  qed
qed

lemma search_before_range:
  "i \<le> j \<Longrightarrow>
   i \<le> search_before lessf data m i j \<and> search_before lessf data m i j \<le> j"
proof (induction lessf data m i j rule: search_before.induct)
  case (1 lessf data m i j)
  show ?case
  proof (cases "i < j")
    case True
    define h where "h = (i + j) div 2"
    from True have h: "i \<le> h" "h < j" by (simp_all add: h_def)
    show ?thesis
    proof (cases "\<not> lessf data m h")
      case c: True
      from "1.IH"(1) [OF True h_def [symmetric, THEN sym] c] h
      have "h + 1 \<le> search_before lessf data m (h + 1) j \<and>
            search_before lessf data m (h + 1) j \<le> j" by simp
      with True c h show ?thesis
        by (subst (1 2) search_before.simps) (simp add: Let_def h_def [symmetric])
    next
      case c: False
      from "1.IH"(2) [OF True h_def [symmetric, THEN sym] c] h
      have "i \<le> search_before lessf data m i h \<and>
            search_before lessf data m i h \<le> h" by simp
      with True c h show ?thesis
        by (subst (1 2) search_before.simps) (simp add: Let_def h_def [symmetric])
    qed
  next
    case False
    with "1.prems" show ?thesis by (subst (1 2) search_before.simps) simp
  qed
qed

lemma search_sym_range:
  "start \<le> r \<Longrightarrow>
   start \<le> search_sym lessf data p start r \<and> search_sym lessf data p start r \<le> r"
proof (induction lessf data p start r rule: search_sym.induct)
  case (1 lessf data p start r)
  show ?case
  proof (cases "start < r")
    case True
    define h where "h = (start + r) div 2"
    from True have h: "start \<le> h" "h < r" by (simp_all add: h_def)
    show ?thesis
    proof (cases "\<not> lessf data (p - h) h")
      case c: True
      from "1.IH"(1) [OF True h_def [symmetric, THEN sym] c] h
      have "h + 1 \<le> search_sym lessf data p (h + 1) r \<and>
            search_sym lessf data p (h + 1) r \<le> r" by simp
      with True c h show ?thesis
        by (subst (1 2) search_sym.simps) (simp add: Let_def h_def [symmetric])
    next
      case c: False
      from "1.IH"(2) [OF True h_def [symmetric, THEN sym] c] h
      have "start \<le> search_sym lessf data p start h \<and>
            search_sym lessf data p start h \<le> h" by simp
      with True c h show ?thesis
        by (subst (1 2) search_sym.simps) (simp add: Let_def h_def [symmetric])
    qed
  next
    case False
    with "1.prems" show ?thesis by (subst (1 2) search_sym.simps) simp
  qed
qed

lemma mset_symMerge_func:
  fixes data :: "'a list"
  shows "a \<le> m \<Longrightarrow> m \<le> b \<Longrightarrow> b \<le> length data \<Longrightarrow>
   mset (symMerge_func lessf data a m b) = mset data"
proof (induction lessf data a m b rule: symMerge_func.induct)
  case (1 lessf data a m b)
  show ?case
  proof (cases "m - a = 1")
    case True
    define i where "i = search_after lessf data a m b"
    have "i \<le> b"
      using search_after_range [of m b lessf data a] "1.prems" by (simp add: i_def)
    have "mset (swap d k (k + 1)) = mset d"
      if "k \<in> set [a ..< i - 1]" and "length d = length data" for k and d :: "'a list"
    proof -
      from that \<open>i \<le> b\<close> "1.prems" have "k < length d" "k + 1 < length d" by auto
      then show ?thesis by (rule mset_swap_data)
    qed
    then have "mset (fold (\<lambda>k data. swap data k (k + 1)) [a ..< i - 1] data) = mset data"
      by (rule mset_fold_steps [OF _ refl])
    moreover have "symMerge_func lessf data a m b =
        fold (\<lambda>k data. swap data k (k + 1)) [a ..< i - 1] data"
      unfolding i_def
      by (subst symMerge_func.simps, subst if_P [OF True]) (simp only: Let_def)
    ultimately show ?thesis by simp
  next
    case na: False
    show ?thesis
    proof (cases "b - m = 1")
      case True
      define i where "i = search_before lessf data m a m"
      have "mset (swap d k (k - 1)) = mset d"
        if "k \<in> set (rev [i + 1 ..< m + 1])" and "length d = length data" for k and d :: "'a list"
      proof -
        from that True "1.prems" have "k < length d" "k - 1 < length d" by auto
        then show ?thesis by (rule mset_swap_data)
      qed
      then have "mset (fold (\<lambda>k data. swap data k (k - 1)) (rev [i + 1 ..< m + 1]) data) =
          mset data"
        by (rule mset_fold_steps [OF _ refl])
      moreover have "symMerge_func lessf data a m b =
          fold (\<lambda>k data. swap data k (k - 1)) (rev [i + 1 ..< m + 1]) data"
        unfolding i_def
        by (subst symMerge_func.simps, subst if_not_P [OF na], subst if_P [OF True])
           (simp only: Let_def)
      ultimately show ?thesis by simp
    next
      case nb: False
      define mid where "mid = (a + b) div 2"
      define n where "n = mid + m"
      define start0 where "start0 = (if m > mid then n - b else a)"
      define r where "r = (if m > mid then mid else m)"
      define p where "p = n - 1"
      define start where "start = search_sym lessf data p start0 r"
      define end' where "end' = n - start"
      define d1 where
        "d1 = (if start < m \<and> m < end' then rotate_func data start m end' else data)"
      define d2 where
        "d2 = (if a < start \<and> start < mid then symMerge_func lessf d1 a start mid else d1)"
      have unfolded: "symMerge_func lessf data a m b =
          (if mid < end' \<and> end' < b then symMerge_func lessf d2 mid end' b else d2)"
        unfolding d2_def d1_def end'_def start_def p_def r_def start0_def n_def mid_def
        by (subst symMerge_func.simps [of lessf data a m b], subst if_not_P [OF na],
            subst if_not_P [OF nb]) (simp only: Let_def)
      have mid: "2 * mid \<le> a + b" "a + b < 2 * mid + 2"
        by (simp_all add: mid_def)
      have "start0 \<le> r"
        using "1.prems" mid by (auto simp: start0_def r_def n_def)
      then have start: "start0 \<le> start" "start \<le> r"
        using search_sym_range [of start0 r lessf data p] by (simp_all add: start_def)
      have end_b: "end' \<le> b"
        using "1.prems" mid start by (auto simp: end'_def start0_def r_def n_def split: if_splits)
      have d1: "mset d1 = mset data"
        using "1.prems" end_b by (simp add: d1_def mset_rotate_func)
      then have len1: "length d1 = length data" by (rule mset_eq_length)
      have d2: "mset d2 = mset d1"
      proof (cases "a < start \<and> start < mid")
        case True
        have "mset (symMerge_func lessf d1 a start mid) = mset d1"
          using True "1.prems" mid len1
          by (intro "1.IH"(1) [OF na nb mid_def n_def start0_def r_def p_def start_def
                end'_def d1_def]) simp_all
        with True show ?thesis by (simp add: d2_def)
      next
        case False
        then show ?thesis by (auto simp: d2_def)
      qed
      then have len2: "length d2 = length data" using len1 mset_eq_length by fastforce
      show ?thesis
      proof (cases "mid < end' \<and> end' < b")
        case True
        have "mset (symMerge_func lessf d2 mid end' b) = mset d2"
          using True "1.prems" len2
          by (intro "1.IH"(2) [OF na nb mid_def n_def start0_def r_def p_def start_def
                end'_def d1_def d2_def]) simp_all
        with True d1 d2 show ?thesis by (simp add: unfolded)
      next
        case False
        with d1 d2 show ?thesis by (auto simp: unfolded)
      qed
    qed
  qed
qed


lemma mset_insertion_blocks:
  "n \<le> length data \<Longrightarrow>
   mset (fst (insertion_blocks lessf data n blockSize a b)) = mset data"
proof (induction lessf data n blockSize a b rule: insertion_blocks.induct)
  case (1 lessf data n blockSize a b)
  show ?case
  proof (cases "0 < blockSize \<and> b \<le> n")
    case True
    have step: "mset (insertionSort_func lessf data a b) = mset data"
      using True "1.prems" by (simp add: mset_insertionSort_func)
    then have "length (insertionSort_func lessf data a b) = length data"
      by (rule mset_eq_length)
    with "1.IH" [OF True] "1.prems" step True show ?thesis
      by (subst insertion_blocks.simps) simp
  next
    case False
    then show ?thesis by (subst insertion_blocks.simps) auto
  qed
qed

lemma mset_merge_blocks:
  "n \<le> length data \<Longrightarrow>
   mset (fst (merge_blocks lessf data n blockSize a (a + 2 * blockSize))) = mset data"
proof (induction lessf data n blockSize a "a + 2 * blockSize" rule: merge_blocks.induct)
  case (1 lessf data n blockSize a)
  show ?case
  proof (cases "0 < blockSize \<and> a + 2 * blockSize \<le> n")
    case True
    have step: "mset (symMerge_func lessf data a (a + blockSize) (a + 2 * blockSize)) = mset data"
      using True "1.prems" by (simp add: mset_symMerge_func)
    then have "length (symMerge_func lessf data a (a + blockSize) (a + 2 * blockSize)) =
        length data"
      by (rule mset_eq_length)
    with "1.hyps" [OF True] "1.prems" step True show ?thesis
      by (subst merge_blocks.simps) simp
  next
    case False
    then show ?thesis by (subst merge_blocks.simps) auto
  qed
qed

lemma mset_merge_passes:
  "n \<le> length data \<Longrightarrow> mset (merge_passes lessf data n blockSize) = mset data"
proof (induction lessf data n blockSize rule: merge_passes.induct)
  case (1 lessf data n blockSize)
  show ?case
  proof (cases "0 < blockSize \<and> blockSize < n")
    case True
    obtain d a where blocks: "merge_blocks lessf data n blockSize 0 (2 * blockSize) = (d, a)"
      by (cases "merge_blocks lessf data n blockSize 0 (2 * blockSize)")
    define m where "m = a + blockSize"
    define d' where "d' = (if m < n then symMerge_func lessf d a m n else d)"
    have d: "mset d = mset data"
      using mset_merge_blocks [of n data lessf blockSize 0] "1.prems" blocks by simp
    then have len: "length d = length data" by (rule mset_eq_length)
    have d': "mset d' = mset d"
      using "1.prems" len by (simp add: d'_def m_def mset_symMerge_func)
    then have "length d' = length data" using len mset_eq_length by fastforce
    then have "mset (merge_passes lessf d' n (blockSize * 2)) = mset d'"
      using "1.prems"
      by (intro "1.IH" [OF True blocks [symmetric] refl m_def d'_def]) simp
    with d d' True blocks show ?thesis
      by (subst merge_passes.simps) (simp add: Let_def m_def d'_def cong: if_cong)
  next
    case False
    then show ?thesis by (subst merge_passes.simps) auto
  qed
qed

lemma mset_SliceStable: "mset (SliceStable x lessf) = mset x"
proof -
  obtain d a where blocks: "insertion_blocks lessf x (length x) 20 0 20 = (d, a)"
    by (cases "insertion_blocks lessf x (length x) 20 0 20")
  have d: "mset d = mset x"
    using mset_insertion_blocks [of "length x" x lessf 20 0 20] blocks by simp
  then have len: "length d = length x" by (rule mset_eq_length)
  then have d': "mset (insertionSort_func lessf d a (length x)) = mset d"
    by (simp add: mset_insertionSort_func)
  then have "length (insertionSort_func lessf d a (length x)) = length x"
    using len mset_eq_length by fastforce
  then have "mset (merge_passes lessf (insertionSort_func lessf d a (length x)) (length x) 20) =
      mset (insertionSort_func lessf d a (length x))"
    by (simp add: mset_merge_passes)
  with d d' blocks show ?thesis
    by (simp add: SliceStable_def stable_func_def)
qed

subsection \<open>WalkSets: the order of the transport services, the last set, the registry\<close>

lemma result_types_empty [simp]:
  "result_types (ResultTypes family_root) = Inr []"
  "result_types (ResultTypes transport_root) = Inr []"
  by (simp_all add: family_root_def transport_root_def empty_root_def)

lemma sorted_family:
  "sorted_http family_root = [child_http, other_http, parent_http]"
  "sorted_grpc family_root = [child_grpc, other_grpc, parent_grpc]"
  by (simp_all add: sorted_http_def sorted_grpc_def ensured_API_def family_root_def
      empty_root_def NewAPIExpr_def SliceStable_short insertionSort_func_def insert_down.simps
      swap_def http_less_def grpc_less_def child_http_def other_http_def parent_http_def
      child_grpc_def other_grpc_def parent_grpc_def upt_rec)

text \<open>
  C5.  The claim is that the sort puts a parent before its child for every initial order
  of the services when there is one level of parents.  The code does not: \<^verbatim>\<open>less\<close> holds
  only between a parent and its own child, so the insertion sort moves a service over its
  left neighbour only when that neighbour is its child.  In the registry above the child
  \<open>B\<close> is stored first, \<open>X\<close> second and the parent \<open>A\<close> last; the set of the HTTP
  services is presented in that order, the child before its parent, and so is the set of the
  gRPC services.
\<close>

theorem parent_after_child:
  "HTTPParentName child_http = HTTPName parent_http \<and>
   HTTPServices (HTTP (ensured_API family_root)) = [child_http, other_http, parent_http] \<and>
   presented accepting family_root () ! 5 =
     [HTTPServiceE child_http, HTTPServiceE other_http, HTTPServiceE parent_http] \<and>
   GRPCParentName child_grpc = GRPCName parent_grpc \<and>
   presented accepting family_root () ! 8 =
     [GRPCServiceE child_grpc, GRPCServiceE other_grpc, GRPCServiceE parent_grpc]"
  by (simp add: presented_Returned sorted_family)
     (simp add: child_http_def parent_http_def child_grpc_def parent_grpc_def ensured_API_def
        family_root_def empty_root_def NewAPIExpr_def)

lemma sorted_transport:
  "sorted_http transport_root = [H2]" "sorted_grpc transport_root = [G1]"
  by (simp_all add: sorted_http_def sorted_grpc_def ensured_API_def transport_root_def
      empty_root_def NewAPIExpr_def SliceStable_short insertionSort_func_def)

text \<open>
  C1.  The claim is that the last set holds the gRPC endpoints of all gRPC services and
  no HTTP endpoint.  The loop assigns \<^verbatim>\<open>append(endpoints, e)\<close> to \<^verbatim>\<open>grpcms\<close>, where
  \<^verbatim>\<open>endpoints\<close> is the set of the HTTP endpoints.  With the HTTP endpoint \<open>M3\<close> and a
  gRPC service whose endpoints are \<open>M1\<close> and \<open>M2\<close>, the last set presented is the
  HTTP endpoint followed by the gRPC endpoint \<open>M2\<close>; the gRPC endpoint \<open>M1\<close> is
  missing.
\<close>

theorem grpc_endpoints_batch:
  "presented accepting transport_root () ! 6 = [HTTPEndpointE (HTTPEndpointExpr ''M3'')] \<and>
   presented accepting transport_root () ! 8 = [GRPCServiceE G1] \<and>
   GRPCEndpoints G1 = [GRPCEndpointExpr ''M1'', GRPCEndpointExpr ''M2''] \<and>
   presented accepting transport_root () ! 9 =
     [HTTPEndpointE (HTTPEndpointExpr ''M3''), GRPCEndpointE (GRPCEndpointExpr ''M2'')]"
  by (simp add: presented_Returned sorted_transport collect_http_concat collect_grpc_last)
     (simp add: H2_def G1_def)

text \<open>
  C2.  The claim is that a walk leaves every collection of the registry as it is, the
  order of the transport services included.  \<^verbatim>\<open>sort.SliceStable\<close> sorts the slice of the
  registry: in the scenario the HTTP services are stored as \<open>S1\<close>, \<open>S2\<close> before the
  walk and as \<open>S2\<close>, \<open>S1\<close> after it, although the registry has its API node.
\<close>

theorem stored_order_counterexample:
  "map HTTPName (HTTPServices (HTTP (ensured_API scenario_root))) = [''S1'', ''S2''] \<and>
   map HTTPName (HTTPServices (HTTP (ensured_API (walked accepting scenario_root ())))) =
     [''S2'', ''S1''] \<and>
   API scenario_root \<noteq> None \<and>
   walked accepting scenario_root () \<noteq> scenario_root"
proof -
  have rt: "result_types (ResultTypes scenario_root) =
      Inr [ResultTypeE \<lparr>ResultTypeName = ''Sum'', ResultAttribute = AttributeExpr ''Sum'',
                        Identifier = ''application/vnd.sum''\<rparr>]"
    by (simp add: scenario_root_def empty_root_def)
  have before: "HTTPServices (HTTP (ensured_API scenario_root)) = [H1, H2]"
    by (simp add: ensured_API_def scenario_root_def empty_root_def NewAPIExpr_def)
  have after: "HTTPServices (HTTP (ensured_API (walked accepting scenario_root ()))) = [H2, H1]"
    using sorted_http_scenario
    by (simp add: walked_def WalkSets_def Let_def rt ensured_API_def sorted_http_def)
  have "API scenario_root \<noteq> None"
    by (simp add: scenario_root_def empty_root_def)
  moreover have "walked accepting scenario_root () \<noteq> scenario_root"
    using before after by (auto simp: H1_def H2_def)
  ultimately show ?thesis
    using before after by (simp add: H1_def H2_def)
qed

text \<open>
  C2, amended.  A walk changes nothing in the registry but the API node: the node is
  created when the registry has none, and its sequences of HTTP and of gRPC services are
  sorted in place.  The services, errors, types, result types, generated types, type maps,
  schemes and meta data are the same after the walk; so are the name and the servers of the
  API node; each of the two sequences of transport services holds the same services as
  before, each as often, and is either as it was (the walk panicked before the sort) or as
  the sort leaves it.  The callback and its answers make no difference.
\<close>

theorem walk_frame:
  "Services (walked walk r s) = Services r \<and>
   Errors (walked walk r s) = Errors r \<and>
   Types (walked walk r s) = Types r \<and>
   ResultTypes (walked walk r s) = ResultTypes r \<and>
   GeneratedTypes (walked walk r s) = GeneratedTypes r \<and>
   Conversions (walked walk r s) = Conversions r \<and>
   Creations (walked walk r s) = Creations r \<and>
   Schemes (walked walk r s) = Schemes r \<and>
   Meta (walked walk r s) = Meta r \<and>
   API (walked walk r s) \<noteq> None \<and>
   APIName (ensured_API (walked walk r s)) = APIName (ensured_API r) \<and>
   Servers (ensured_API (walked walk r s)) = Servers (ensured_API r) \<and>
   mset (HTTPServices (HTTP (ensured_API (walked walk r s)))) =
     mset (HTTPServices (HTTP (ensured_API r))) \<and>
   mset (GRPCServices (GRPC (ensured_API (walked walk r s)))) =
     mset (GRPCServices (GRPC (ensured_API r))) \<and>
   HTTPServices (HTTP (ensured_API (walked walk r s))) \<in>
     {HTTPServices (HTTP (ensured_API r)), sorted_http r} \<and>
   GRPCServices (GRPC (ensured_API (walked walk r s))) \<in>
     {GRPCServices (GRPC (ensured_API r)), sorted_grpc r} \<and>
   walked walk r s = walked accepting r ()"
proof (cases "result_types (ResultTypes r)")
  case (Inl p)
  then show ?thesis
    by (simp add: walked_def WalkSets_def Let_def ensured_API_def)
next
  case (Inr mtypes)
  then show ?thesis
    by (simp add: walked_def WalkSets_def Let_def ensured_API_def sorted_http_def
        sorted_grpc_def mset_SliceStable)
qed

end
